theory Spec2Isabelle
  imports Main "HOL-Library.Sublist"
begin

section \<open>Strings of the interpreter\<close>

text \<open>
  A Python \<open>str\<close> is a sequence of code points. The model takes HOL's \<open>char\<close> as the
  code points U+0000 .. U+00FF (\<open>of_char c\<close> is the code point), so a \<open>string\<close> here is
  a Python string over the Latin-1 block; the tables below are the interpreter's tables
  restricted to that block. Resource limits of the interpreter (memory, the optional
  limit on the number of digits \<open>int\<close> converts) are outside the model.
\<close>

datatype py_error = ValueError | RuntimeError string | FileNotFoundError | ApiError

definition cp :: "char \<Rightarrow> nat" where
  "cp c = of_char c"

text \<open>\<open>str.isspace\<close> on one character; \<open>str.strip()\<close> removes exactly these.\<close>

definition py_isspace :: "char \<Rightarrow> bool" where
  "py_isspace c = ((9 \<le> cp c \<and> cp c \<le> 13) \<or> (28 \<le> cp c \<and> cp c \<le> 32) \<or> cp c = 133 \<or> cp c = 160)"

text \<open>The characters \<open>int()\<close> skips around a literal: the file separators
  U+001C .. U+001F are whitespace for \<open>strip\<close> but not for \<open>int\<close>.\<close>

definition int_isspace :: "char \<Rightarrow> bool" where
  "int_isspace c = ((9 \<le> cp c \<and> cp c \<le> 13) \<or> cp c = 32 \<or> cp c = 133 \<or> cp c = 160)"

text \<open>Decimal digits (\<open>str.isdecimal\<close>), the only digits \<open>int()\<close> reads.\<close>

definition is_decimal_char :: "char \<Rightarrow> bool" where
  "is_decimal_char c = (48 \<le> cp c \<and> cp c \<le> 57)"

text \<open>\<open>str.isdigit\<close> on one character: the decimal digits and the superscript digits
  U+00B2, U+00B3, U+00B9.\<close>

definition is_digit_char :: "char \<Rightarrow> bool" where
  "is_digit_char c = (is_decimal_char c \<or> cp c = 178 \<or> cp c = 179 \<or> cp c = 185)"

definition strip_with :: "(char \<Rightarrow> bool) \<Rightarrow> string \<Rightarrow> string" where
  "strip_with sp s = rev (dropWhile sp (rev (dropWhile sp s)))"

definition py_strip :: "string \<Rightarrow> string" where
  "py_strip s = strip_with py_isspace s"

text \<open>\<open>s.isdigit()\<close>: at least one character, and all of them digits.\<close>

definition py_isdigit :: "string \<Rightarrow> bool" where
  "py_isdigit s = (s \<noteq> [] \<and> list_all is_digit_char s)"

text \<open>\<open>s.split(sep)\<close> for a one-character separator: always at least one field.\<close>

fun py_split :: "char \<Rightarrow> string \<Rightarrow> string list" where
  "py_split sep [] = [[]]"
| "py_split sep (c # cs) =
     (if c = sep then [] # py_split sep cs
      else (case py_split sep cs of
              [] \<Rightarrow> [[c]]
            | r # rs \<Rightarrow> (c # r) # rs))"

text \<open>\<open>s.split(sep, 1)\<close>: cut at the first separator, if there is one.\<close>

definition py_split1 :: "char \<Rightarrow> string \<Rightarrow> string list" where
  "py_split1 sep s =
     (case dropWhile (\<lambda>c. c \<noteq> sep) s of
        [] \<Rightarrow> [s]
      | _ # rest \<Rightarrow> [takeWhile (\<lambda>c. c \<noteq> sep) s, rest])"

text \<open>
  \<open>int(s)\<close> in base 10: whitespace around the literal is skipped, one sign is allowed,
  then decimal digits, where single underscores may stand between digits. Anything
  else is a \<open>ValueError\<close>. \<open>parse_lit\<close> scans the digits; its flag says whether the
  previous character was a digit.
\<close>

fun parse_lit :: "bool \<Rightarrow> nat \<Rightarrow> string \<Rightarrow> nat option" where
  "parse_lit pd acc [] = (if pd then Some acc else None)"
| "parse_lit pd acc (c # cs) =
     (if is_decimal_char c then parse_lit True (10 * acc + (cp c - 48)) cs
      else if c = CHR ''_'' \<and> pd then parse_lit False acc cs
      else None)"

definition py_int :: "string \<Rightarrow> py_error + int" where
  "py_int s =
     (let t = strip_with int_isspace s;
          neg = (t \<noteq> [] \<and> hd t = CHR ''-'');
          u = (if t \<noteq> [] \<and> (hd t = CHR ''-'' \<or> hd t = CHR ''+'') then tl t else t)
      in case parse_lit False 0 u of
           None \<Rightarrow> Inl ValueError
         | Some n \<Rightarrow> Inr (if neg then - int n else int n))"

section \<open>The page-selection parser\<close>

text \<open>
  The body of the loop of \<open>parse_page_selection\<close> over the comma-separated parts:
  \<open>pages\<close> is the set built so far. A raise of \<open>int\<close> leaves the function.
\<close>

definition process_part :: "int set \<Rightarrow> string \<Rightarrow> py_error + int set" where
  "process_part pages part0 =
     (let part = py_strip part0 in
      if part = [] then Inr pages
      else if CHR ''-'' \<in> set part then
        (case py_split1 (CHR ''-'') part of
           [a, b] \<Rightarrow>
             if py_isdigit (py_strip a) \<and> py_isdigit (py_strip b) then
               (case py_int a of
                  Inl e \<Rightarrow> Inl e
                | Inr start \<Rightarrow>
                    (case py_int b of
                       Inl e \<Rightarrow> Inl e
                     | Inr end \<Rightarrow>
                         (if start > end
                          then Inr (pages \<union> set [end..start])
                          else Inr (pages \<union> set [start..end]))))
             else Inr pages
         | _ \<Rightarrow> Inl ValueError)
      else if py_isdigit part then
        (case py_int part of
           Inl e \<Rightarrow> Inl e
         | Inr n \<Rightarrow> Inr (insert n pages))
      else Inr pages)"

fun parts_loop :: "int set \<Rightarrow> string list \<Rightarrow> py_error + int set" where
  "parts_loop pages [] = Inr pages"
| "parts_loop pages (part # parts) =
     (case process_part pages part of
        Inl e \<Rightarrow> Inl e
      | Inr pages' \<Rightarrow> parts_loop pages' parts)"

text \<open>\<open>pages or None\<close>: an empty set is falsy.\<close>

definition or_None :: "int set \<Rightarrow> int set option" where
  "or_None pages = (if pages = {} then None else Some pages)"

definition parse_page_selection :: "string \<Rightarrow> py_error + int set option" where
  "parse_page_selection s =
     (if s = [] then Inr None
      else let s' = py_strip s in
        if s' = [] then Inr None
        else (case parts_loop {} (py_split (CHR '','') s') of
                Inl e \<Rightarrow> Inl e
              | Inr pages \<Rightarrow> Inr (or_None pages)))"

section \<open>Filtering the selection against the page count\<close>

text \<open>The truth value the \<open>if sel_1based:\<close> test takes: \<open>None\<close> and the empty set are
  falsy.\<close>

fun truthy :: "int set option \<Rightarrow> bool" where
  "truthy None = False"
| "truthy (Some S) = (S \<noteq> {})"

text \<open>\<open>selected_idx\<close>: the 0-based indices kept, or \<open>None\<close> for all pages.\<close>

definition selected_idx :: "int set option \<Rightarrow> int \<Rightarrow> int set option" where
  "selected_idx sel_1based total_pages =
     (if truthy sel_1based
      then (case sel_1based of
              Some S \<Rightarrow> Some ((\<lambda>p. p - 1) ` Set.filter (\<lambda>p. 1 \<le> p \<and> p \<le> total_pages) S)
            | None \<Rightarrow> None)
      else None)"

section \<open>Markdown aggregation\<close>

record ocr_page =
  index :: int
  markdown :: string

text \<open>\<open>str(n)\<close> for an integer, as the f-strings format it.\<close>

definition digit_char :: "nat \<Rightarrow> char" where
  "digit_char d = char_of (48 + d)"

fun str_nat :: "nat \<Rightarrow> string" where
  "str_nat n = (if n < 10 then [digit_char n] else str_nat (n div 10) @ [digit_char (n mod 10)])"

declare str_nat.simps [simp del]

definition py_str_int :: "int \<Rightarrow> string" where
  "py_str_int i = (if i < 0 then CHR ''-'' # str_nat (nat (- i)) else str_nat (nat i))"

definition newline :: char where
  "newline = CHR 0x0A"

text \<open>The entry of one page: \<open>f"## Page {page.index + 1}\n\n{page.markdown}"\<close>.\<close>

definition page_entry :: "ocr_page \<Rightarrow> string" where
  "page_entry page =
     ''## Page '' @ py_str_int (index page + 1) @ [newline, newline] @ markdown page"

definition page_selected :: "int set option \<Rightarrow> ocr_page \<Rightarrow> bool" where
  "page_selected sel page = (case sel of None \<Rightarrow> True | Some S \<Rightarrow> index page \<in> S)"

text \<open>The loop over \<open>resp.pages\<close>, appending to \<open>md_pages\<close>.\<close>

fun md_pages_loop :: "int set option \<Rightarrow> string list \<Rightarrow> ocr_page list \<Rightarrow> string list" where
  "md_pages_loop sel acc [] = acc"
| "md_pages_loop sel acc (page # pages) =
     md_pages_loop sel (if page_selected sel page then acc @ [page_entry page] else acc) pages"

definition md_pages :: "int set option \<Rightarrow> ocr_page list \<Rightarrow> string list" where
  "md_pages sel pages = md_pages_loop sel [] pages"

text \<open>\<open>sep.join(xs)\<close>.\<close>

fun py_join :: "string \<Rightarrow> string list \<Rightarrow> string" where
  "py_join sep [] = []"
| "py_join sep [x] = x"
| "py_join sep (x # y # ys) = x @ sep @ py_join sep (y # ys)"

definition md_text :: "int set option \<Rightarrow> ocr_page list \<Rightarrow> string" where
  "md_text sel pages = py_join [newline, newline] (md_pages sel pages)"

section \<open>Word export\<close>

datatype docx_block = Heading nat string | Paragraph string

text \<open>\<open>str.splitlines()\<close>: the line boundaries of the Latin-1 block, \<open>\r\n\<close> counting
  as one; no empty last line.\<close>

definition is_linebreak :: "char \<Rightarrow> bool" where
  "is_linebreak c = ((10 \<le> cp c \<and> cp c \<le> 13) \<or> (28 \<le> cp c \<and> cp c \<le> 30) \<or> cp c = 133)"

fun splitlines_from :: "string \<Rightarrow> string \<Rightarrow> string list" where
  "splitlines_from cur [] = (if cur = [] then [] else [rev cur])"
| "splitlines_from cur [c] = (if is_linebreak c then [rev cur] else [rev (c # cur)])"
| "splitlines_from cur (c # d # cs) =
     (if c = CHR 0x0D \<and> d = CHR 0x0A then rev cur # splitlines_from [] cs
      else if is_linebreak c then rev cur # splitlines_from [] (d # cs)
      else splitlines_from (c # cur) (d # cs))"

definition py_splitlines :: "string \<Rightarrow> string list" where
  "py_splitlines s = splitlines_from [] s"

text \<open>
  The document library writes the text of a block into an XML tree. Tab, line feed and
  carriage return become elements of their own; every other character is stored as
  XML text, and the tree refuses, with a \<open>ValueError\<close>, a character below U+0020.
\<close>

definition xml_char_ok :: "char \<Rightarrow> bool" where
  "xml_char_ok c = (cp c = 9 \<or> cp c = 10 \<or> cp c = 13 \<or> 32 \<le> cp c)"

text \<open>\<open>doc.add_heading(text, level)\<close> and \<open>doc.add_paragraph(text)\<close>.\<close>

definition add_heading :: "string \<Rightarrow> nat \<Rightarrow> py_error + docx_block" where
  "add_heading text level =
     (if list_all xml_char_ok text then Inr (Heading level text) else Inl ValueError)"

definition add_paragraph :: "string \<Rightarrow> py_error + docx_block" where
  "add_paragraph text =
     (if list_all xml_char_ok text then Inr (Paragraph text) else Inl ValueError)"

text \<open>The mapping of one line: the \<open>if\<close>/\<open>elif\<close> chain over \<open>line.startswith\<close>.\<close>

definition add_line :: "string \<Rightarrow> py_error + docx_block" where
  "add_line line =
     (if prefix ''###### '' line then add_heading (drop 7 line) 6
      else if prefix ''##### '' line then add_heading (drop 6 line) 5
      else if prefix ''#### '' line then add_heading (drop 5 line) 4
      else if prefix ''### '' line then add_heading (drop 4 line) 3
      else if prefix ''## '' line then add_heading (drop 3 line) 2
      else if prefix ''# '' line then add_heading (drop 2 line) 1
      else add_paragraph line)"

text \<open>The loop over the lines, appending to the document \<open>doc\<close>; a raise leaves it.\<close>

fun export_loop :: "docx_block list \<Rightarrow> string list \<Rightarrow> py_error + docx_block list" where
  "export_loop doc [] = Inr doc"
| "export_loop doc (line # lines) =
     (case add_line line of
        Inl e \<Rightarrow> Inl e
      | Inr block \<Rightarrow> export_loop (doc @ [block]) lines)"

definition export_docx :: "string \<Rightarrow> py_error + docx_block list" where
  "export_docx text = export_loop [] (py_splitlines text)"

section \<open>The two programs\<close>

text \<open>
  What a run does is the list of its effects, in order. The hosted OCR service and the
  base64 encoder are parameters; the environment variable is read after \<open>load_dotenv\<close>.
  Widget layout, download file names and the byte encoding of the downloads are left
  out.
\<close>

datatype event =
    StError string
  | StFailed py_error
  | StException py_error
  | FileRead
  | Base64Encode
  | ClientInit string
  | OcrCall string bool
  | StInfo string
  | StSuccess
  | StPreview string
  | DownloadMarkdown string
  | DownloadDocx "docx_block list"
  | Print string
  | Raised py_error

record remote =
  b64encode :: "string \<Rightarrow> string"
  ocr_process :: "string \<Rightarrow> bool \<Rightarrow> py_error + ocr_page list"

record app_inputs =
  convert_btn :: bool
  uploaded_file :: "string option"
  api_key :: string
  env_key :: "string option"
  keep_images :: bool
  pages_input :: string

definition upload_msg :: string where
  "upload_msg = ''Please upload a PDF file first.''"

definition missing_key_msg :: string where
  "missing_key_msg =
     ''Mistral API Key is missing. Provide it in the sidebar or set MISTRAL_API_KEY in your .env.''"

definition not_set_msg :: string where
  "not_set_msg =
     ''MISTRAL_API_KEY is not set. Create a .env with MISTRAL_API_KEY=<your_key> or set the environment variable.''"

text \<open>\<open>os.getenv(name, "")\<close>.\<close>

definition getenv_default :: "string option \<Rightarrow> string" where
  "getenv_default v = (case v of None \<Rightarrow> [] | Some k \<Rightarrow> k)"

text \<open>\<open>key = api_key or os.getenv("MISTRAL_API_KEY", "")\<close>.\<close>

definition resolve_key :: "string \<Rightarrow> string option \<Rightarrow> string" where
  "resolve_key field v = (if field \<noteq> [] then field else getenv_default v)"

definition data_url :: "string \<Rightarrow> string" where
  "data_url b64 = ''data:application/pdf;base64,'' @ b64"

definition info_msg :: "int set option \<Rightarrow> nat \<Rightarrow> int \<Rightarrow> string" where
  "info_msg sel_idx shown total_pages =
     (if sel_idx \<noteq> None
      then ''Showing '' @ py_str_int (int shown) @ '' page(s) out of '' @ py_str_int total_pages
             @ '' based on your selection.''
      else ''Showing all '' @ py_str_int total_pages @ '' page(s).'')"

text \<open>The part of the \<open>try\<close> block after the OCR response has arrived. The Markdown
  download is offered before the document is built, so a raise of the export comes
  after it.\<close>

definition render_result :: "string \<Rightarrow> ocr_page list \<Rightarrow> event list" where
  "render_result pages_in pages =
     (let total_pages = int (length pages) in
      case parse_page_selection pages_in of
        Inl e \<Rightarrow> [StFailed e, StException e]
      | Inr sel_1based \<Rightarrow>
          (let sel_idx = selected_idx sel_1based total_pages;
               mds = md_pages sel_idx pages;
               text = py_join [newline, newline] mds
           in [StInfo (info_msg sel_idx (length mds) total_pages), StSuccess, StPreview text,
               DownloadMarkdown text] @
              (case export_docx text of
                 Inl e \<Rightarrow> [StFailed e, StException e]
               | Inr doc \<Rightarrow> [DownloadDocx doc])))"

definition try_block :: "remote \<Rightarrow> app_inputs \<Rightarrow> string \<Rightarrow> string \<Rightarrow> event list" where
  "try_block r inp pdf_bytes key =
     (let url = data_url (b64encode r pdf_bytes) in
      [FileRead, Base64Encode, ClientInit key, OcrCall url (keep_images inp)] @
      (case ocr_process r url (keep_images inp) of
         Inl e \<Rightarrow> [StFailed e, StException e]
       | Inr pages \<Rightarrow> render_result (pages_input inp) pages))"

text \<open>\<open>app.py\<close> from \<open>if convert_btn:\<close> on.\<close>

definition app_run :: "remote \<Rightarrow> app_inputs \<Rightarrow> event list" where
  "app_run r inp =
     (if \<not> convert_btn inp then []
      else (case uploaded_file inp of
              None \<Rightarrow> [StError upload_msg]
            | Some pdf_bytes \<Rightarrow>
                (let key = resolve_key (api_key inp) (env_key inp) in
                 if key = [] then [StError missing_key_msg]
                 else try_block r inp pdf_bytes key)))"

text \<open>\<open>docconv.py\<close>: the file \<open>document.pdf\<close> (absent: \<open>None\<close>) is read and encoded
  first, then the key is looked up.\<close>

definition docconv_run :: "remote \<Rightarrow> string option \<Rightarrow> string option \<Rightarrow> event list" where
  "docconv_run r file v =
     (case file of
        None \<Rightarrow> [Raised FileNotFoundError]
      | Some pdf_bytes \<Rightarrow>
          [FileRead, Base64Encode] @
          (case v of
             None \<Rightarrow> [Raised (RuntimeError not_set_msg)]
           | Some k \<Rightarrow>
               if k = [] then [Raised (RuntimeError not_set_msg)]
               else
                 (let url = data_url (b64encode r pdf_bytes) in
                  [ClientInit k, OcrCall url True] @
                  (case ocr_process r url True of
                     Inl e \<Rightarrow> [Raised e]
                   | Inr pages \<Rightarrow> map (\<lambda>page. Print (markdown page)) pages))))"

text \<open>A service that answers with no pages, for concrete runs.\<close>

definition no_pages_remote :: remote where
  "no_pages_remote = \<lparr>b64encode = (\<lambda>b. b), ocr_process = (\<lambda>url keep. Inr [])\<rparr>"

section \<open>Notions the properties are stated with\<close>

text \<open>The number a string of decimal digits denotes.\<close>

definition decimal_value :: "string \<Rightarrow> nat" where
  "decimal_value s = foldl (\<lambda>acc c. 10 * acc + (cp c - 48)) 0 s"

text \<open>Where the entry of the page at position \<open>J\<close> of the response lands in
  \<open>md_pages\<close>: behind the entries of the selected pages before it.\<close>

definition out_pos :: "int set option \<Rightarrow> ocr_page list \<Rightarrow> nat \<Rightarrow> nat" where
  "out_pos sel pages J = length (filter (page_selected sel) (take J pages))"


text \<open>\<open>x\<close> stands in \<open>text\<close> with a blank line behind it, and \<open>y\<close> stands further
  behind.\<close>

definition occurs_in_order :: "string \<Rightarrow> string \<Rightarrow> string \<Rightarrow> bool" where
  "occurs_in_order x y text = (\<exists>A B C. text = A @ x @ [CHR 0x0A, CHR 0x0A] @ B @ y @ C)"

text \<open>\<open>d\<close> is the decimal numeral of \<open>n\<close>: digits only behind an optional minus sign,
  no leading zero, and the value \<open>n\<close>.\<close>

definition unsigned_numeral :: "string \<Rightarrow> nat \<Rightarrow> bool" where
  "unsigned_numeral d n =
     (d \<noteq> [] \<and> list_all is_decimal_char d \<and> (hd d = CHR ''0'' \<longrightarrow> d = ''0'') \<and>
      decimal_value d = n)"

definition decimal_numeral :: "string \<Rightarrow> int \<Rightarrow> bool" where
  "decimal_numeral d n =
     (if n < 0 then d \<noteq> [] \<and> hd d = CHR ''-'' \<and> unsigned_numeral (tl d) (nat (- n))
      else unsigned_numeral d (nat n))"

text \<open>The characters on which \<open>isdigit\<close> and \<open>int\<close>, and \<open>strip\<close> and \<open>int\<close>, agree:
  no superscript digit and no separator U+001C .. U+001F.\<close>

definition plain_char :: "char \<Rightarrow> bool" where
  "plain_char c = (\<not> (cp c = 178 \<or> cp c = 179 \<or> cp c = 185) \<and> \<not> (28 \<le> cp c \<and> cp c \<le> 31))"

section \<open>Facts about the string primitives\<close>

lemmas char_tables = cp_def py_isspace_def int_isspace_def is_decimal_char_def is_digit_char_def

lemmas parser_defs = parse_page_selection_def py_strip_def strip_with_def process_part_def
  py_split1_def py_isdigit_def py_int_def or_None_def

lemma strip_with_all: "\<forall>c\<in>set s. sp c \<Longrightarrow> strip_with sp s = []"
proof -
  assume "\<forall>c\<in>set s. sp c"
  then have d: "dropWhile sp s = []" by (induction s) auto
  show ?thesis unfolding strip_with_def d by simp
qed

lemma strip_with_id: "s \<noteq> [] \<Longrightarrow> \<not> sp (hd s) \<Longrightarrow> \<not> sp (last s) \<Longrightarrow> strip_with sp s = s"
proof -
  assume ne: "s \<noteq> []" and h: "\<not> sp (hd s)" and l: "\<not> sp (last s)"
  from ne h have d: "dropWhile sp s = s" by (cases s) simp_all
  from ne l have "dropWhile sp (rev s) = rev s" by (cases "rev s") (simp_all add: last_rev hd_rev[symmetric])
  with d show ?thesis by (simp add: strip_with_def)
qed

lemma py_split_no_sep: "sep \<notin> set s \<Longrightarrow> py_split sep s = [s]"
  by (induction s) auto

lemma py_split1_cut: "sep \<notin> set a \<Longrightarrow> py_split1 sep (a @ sep # b) = [a, b]"
proof -
  assume n: "sep \<notin> set a"
  then have d: "dropWhile (\<lambda>c. c \<noteq> sep) (a @ sep # b) = sep # b"
    by (induction a) auto
  from n have t: "takeWhile (\<lambda>c. c \<noteq> sep) (a @ sep # b) = a"
    by (induction a) auto
  show ?thesis by (simp add: py_split1_def d t)
qed

lemma parse_lit_decimal:
  "list_all is_decimal_char u \<Longrightarrow> pd \<or> u \<noteq> [] \<Longrightarrow>
   parse_lit pd acc u = Some (foldl (\<lambda>acc c. 10 * acc + (cp c - 48)) acc u)"
  by (induction u arbitrary: pd acc) auto

lemma decimal_not_space: "is_decimal_char c \<Longrightarrow> \<not> py_isspace c \<and> \<not> int_isspace c \<and> c \<noteq> CHR ''-'' \<and> c \<noteq> CHR ''+'' \<and> c \<noteq> CHR '','' \<and> is_digit_char c"
  by (auto simp: char_tables)

lemma py_int_decimal:
  assumes "u \<noteq> []" "list_all is_decimal_char u"
  shows "py_int u = Inr (int (decimal_value u))"
proof -
  from assms have h: "is_decimal_char (hd u)" and l: "is_decimal_char (last u)"
    by (auto simp: list_all_iff)
  then have s: "strip_with int_isspace u = u"
    using assms(1) decimal_not_space strip_with_id by blast
  from h have "hd u \<noteq> CHR ''-''" "hd u \<noteq> CHR ''+''" using decimal_not_space by blast+
  then show ?thesis
    using assms by (simp add: py_int_def s parse_lit_decimal decimal_value_def)
qed

lemma py_strip_decimal:
  assumes "u \<noteq> []" "list_all is_decimal_char u"
  shows "py_strip u = u"
proof -
  from assms have h: "is_decimal_char (hd u)" and l: "is_decimal_char (last u)"
    by (auto simp: list_all_iff)
  then show ?thesis unfolding py_strip_def
    using assms(1) decimal_not_space strip_with_id by blast
qed

lemma py_isdigit_decimal:
  "u \<noteq> [] \<Longrightarrow> list_all is_decimal_char u \<Longrightarrow> py_isdigit u"
  using decimal_not_space by (auto simp: py_isdigit_def list_all_iff)

lemma md_pages_loop_eq:
  "md_pages_loop sel acc pages = acc @ map page_entry (filter (page_selected sel) pages)"
  by (induction pages arbitrary: acc) auto

lemma md_pages_eq: "md_pages sel pages = map page_entry (filter (page_selected sel) pages)"
  by (simp add: md_pages_def md_pages_loop_eq)

lemma filter_split_nth:
  "J < length xs \<Longrightarrow>
   filter P xs = filter P (take J xs) @ (if P (xs ! J) then [xs ! J] else []) @ filter P (drop (Suc J) xs)"
proof -
  assume "J < length xs"
  then have "xs = take J xs @ xs ! J # drop (Suc J) xs" by (rule id_take_nth_drop)
  then have "filter P xs = filter P (take J xs @ xs ! J # drop (Suc J) xs)" by simp
  then show ?thesis by simp
qed

lemma filter_nth_pos:
  assumes "J < length xs" "P (xs ! J)"
  shows "length (filter P (take J xs)) < length (filter P xs)"
    and "filter P xs ! length (filter P (take J xs)) = xs ! J"
proof -
  have e: "filter P xs = filter P (take J xs) @ xs ! J # filter P (drop (Suc J) xs)"
    using filter_split_nth [OF assms(1), of P] assms(2) by simp
  have "length (filter P xs) = length (filter P (take J xs)) + 1 + length (filter P (drop (Suc J) xs))"
    by (subst e) simp
  then show "length (filter P (take J xs)) < length (filter P xs)"
    by simp
  have "(filter P (take J xs) @ xs ! J # filter P (drop (Suc J) xs)) ! length (filter P (take J xs)) = xs ! J"
    by (rule nth_append_length)
  with e show "filter P xs ! length (filter P (take J xs)) = xs ! J"
    by simp
qed

lemma filter_pos_mono:
  assumes "J < K" "K \<le> length xs" "P (xs ! J)"
  shows "length (filter P (take J xs)) < length (filter P (take K xs))"
proof -
  have j: "J < length (take K xs)" using assms by simp
  have "take J (take K xs) = take J xs" using assms by (simp add: min_def)
  moreover have "take K xs ! J = xs ! J" using assms by simp
  ultimately show ?thesis
    using filter_nth_pos(1) [of J "take K xs" P] j assms(3) by simp
qed

lemma md_pages_order:
  assumes "J < K" "K < length pages"
    "page_selected sel (pages ! J)" "page_selected sel (pages ! K)"
  shows "out_pos sel pages J < out_pos sel pages K \<and>
         out_pos sel pages K < length (md_pages sel pages) \<and>
         md_pages sel pages ! out_pos sel pages J = page_entry (pages ! J) \<and>
         md_pages sel pages ! out_pos sel pages K = page_entry (pages ! K)"
proof -
  let ?P = "page_selected sel"
  have jl: "J < length pages" using assms by simp
  have 1: "out_pos sel pages J < out_pos sel pages K"
    unfolding out_pos_def using filter_pos_mono [of J K pages ?P] assms by simp
  have 2: "out_pos sel pages K < length (filter ?P pages)"
    unfolding out_pos_def using filter_nth_pos(1) [of K pages ?P] assms by simp
  have 3: "filter ?P pages ! out_pos sel pages J = pages ! J"
    unfolding out_pos_def using filter_nth_pos(2) [of J pages ?P] jl assms by simp
  have 4: "filter ?P pages ! out_pos sel pages K = pages ! K"
    unfolding out_pos_def using filter_nth_pos(2) [of K pages ?P] assms by simp
  from 1 2 have 5: "out_pos sel pages J < length (filter ?P pages)" by simp
  show ?thesis using 1 2 3 4 5 by (simp add: md_pages_eq)
qed

lemma cp_digit_char: "d < 10 \<Longrightarrow> cp (digit_char d) = 48 + d"
  by (simp add: cp_def digit_char_def)

lemma str_nat_decimal: "list_all is_decimal_char (str_nat n) \<and> str_nat n \<noteq> []"
proof (induction n rule: str_nat.induct)
  case (1 n)
  show ?case
  proof (cases "n < 10")
    case True
    then show ?thesis by (subst (1 2) str_nat.simps) (simp add: is_decimal_char_def cp_digit_char)
  next
    case False
    then have m: "n mod 10 < 10" by simp
    from False 1 have ih: "list_all is_decimal_char (str_nat (n div 10))" by simp
    have "is_decimal_char (digit_char (n mod 10))"
      using m by (simp add: is_decimal_char_def cp_digit_char)
    with ih False show ?thesis by (subst (1 2) str_nat.simps) simp
  qed
qed

lemma decimal_value_snoc: "decimal_value (s @ [c]) = 10 * decimal_value s + (cp c - 48)"
  by (simp add: decimal_value_def)

lemma str_nat_value: "decimal_value (str_nat n) = n"
proof (induction n rule: str_nat.induct)
  case (1 n)
  show ?case
  proof (cases "n < 10")
    case True
    then show ?thesis by (subst str_nat.simps) (simp add: decimal_value_def cp_digit_char)
  next
    case False
    with 1 show ?thesis by (subst str_nat.simps) (simp add: decimal_value_snoc cp_digit_char)
  qed
qed

lemma heading_number_reads_back: "0 \<le> i \<Longrightarrow> py_int (py_str_int i) = Inr i"
  using py_int_decimal [of "str_nat (nat i)"] str_nat_decimal [of "nat i"]
  by (simp add: py_str_int_def str_nat_value)

















lemma splitlines_from_step:
  "\<not> is_linebreak x \<Longrightarrow> splitlines_from cur (x # s) = splitlines_from (x # cur) s"
proof (cases s)
  case Nil
  assume "\<not> is_linebreak x"
  with Nil show ?thesis by simp
next
  case (Cons d cs)
  assume n: "\<not> is_linebreak x"
  then have "x \<noteq> CHR 0x0D" by (auto simp add: is_linebreak_def cp_def)
  with n Cons show ?thesis by simp
qed

lemma splitlines_from_run:
  "\<forall>c\<in>set l. \<not> is_linebreak c \<Longrightarrow> splitlines_from cur (l @ s) = splitlines_from (rev l @ cur) s"
  by (induction l arbitrary: cur) (simp_all add: splitlines_from_step)

lemma splitlines_from_break:
  assumes "is_linebreak c" "\<not> (c = CHR 0x0D \<and> s \<noteq> [] \<and> hd s = CHR 0x0A)"
  shows "splitlines_from cur (c # s) = rev cur # splitlines_from [] s"
  using assms by (cases s) auto

lemma splitlines_from_crlf:
  "splitlines_from cur (CHR 0x0D # CHR 0x0A # s) = rev cur # splitlines_from [] s"
  by simp

lemma splitlines_last:
  "\<forall>c\<in>set r. \<not> is_linebreak c \<Longrightarrow> py_splitlines r = (if r = [] then [] else [r])"
  using splitlines_from_run [of r "[]" "[]"] by (simp add: py_splitlines_def)

lemma splitlines_line:
  assumes "\<forall>c\<in>set l. \<not> is_linebreak c" "is_linebreak c"
    "\<not> (c = CHR 0x0D \<and> s \<noteq> [] \<and> hd s = CHR 0x0A)"
  shows "py_splitlines (l @ c # s) = l # py_splitlines s"
  using splitlines_from_run [OF assms(1), of "[]" "c # s"] splitlines_from_break [OF assms(2,3)]
  by (simp add: py_splitlines_def)


lemma newline_is_break: "is_linebreak (CHR 0x0A) \<and> CHR 0x0A \<noteq> CHR 0x0D"
  by (simp add: is_linebreak_def cp_def)

lemma splitlines_newlines:
  assumes "\<forall>l\<in>set ls. \<forall>c\<in>set l. \<not> is_linebreak c" "\<forall>c\<in>set r. \<not> is_linebreak c"
  shows "py_splitlines (concat (map (\<lambda>l. l @ [CHR 0x0A]) ls) @ r) =
         ls @ (if r = [] then [] else [r])"
  using assms(1)
proof (induction ls)
  case Nil
  then show ?case using splitlines_last [OF assms(2)] by simp
next
  case (Cons l ls)
  then have 1: "\<forall>c\<in>set l. \<not> is_linebreak c" by simp
  have "py_splitlines (l @ CHR 0x0A # (concat (map (\<lambda>l. l @ [CHR 0x0A]) ls) @ r)) =
        l # py_splitlines (concat (map (\<lambda>l. l @ [CHR 0x0A]) ls) @ r)"
    using 1 newline_is_break by (intro splitlines_line) auto
  with Cons show ?case by simp
qed

section \<open>Facts about the parser\<close>

lemma parse_never_empty: "parse_page_selection s \<noteq> Inr (Some {})"
  by (auto simp add: parse_page_selection_def or_None_def Let_def split: sum.splits)

lemma selected_idx_Some:
  "S \<noteq> {} \<Longrightarrow> selected_idx (Some S) N = Some {p - 1 |p. p \<in> S \<and> 1 \<le> p \<and> p \<le> N}"
  by (auto simp add: selected_idx_def)

lemma range_token:
  assumes a: "a \<noteq> []" "list_all is_decimal_char a"
      and b: "b \<noteq> []" "list_all is_decimal_char b"
  shows "process_part pages (a @ ''-'' @ b) =
         Inr (pages \<union> {int (min (decimal_value a) (decimal_value b)) ..
                       int (max (decimal_value a) (decimal_value b))})"
proof -
  let ?t = "a @ CHR ''-'' # b"
  from a b have h: "is_decimal_char (hd ?t)" and l: "is_decimal_char (last ?t)"
    by (auto simp: list_all_iff)
  then have s: "py_strip ?t = ?t"
    unfolding py_strip_def using decimal_not_space strip_with_id [of ?t py_isspace] by simp
  from a have nd: "CHR ''-'' \<notin> set a"
    using decimal_not_space by (auto simp: list_all_iff)
  have c: "py_split1 (CHR ''-'') ?t = [a, b]"
    using py_split1_cut [OF nd, of b] by simp
  have "process_part pages ?t =
         Inr (pages \<union> {int (min (decimal_value a) (decimal_value b)) ..
                       int (max (decimal_value a) (decimal_value b))})"
    using a b
    by (auto simp add: process_part_def s c py_strip_decimal py_isdigit_decimal py_int_decimal
        min_def max_def)
  then show ?thesis by simp
qed

lemma range_token_whole:
  assumes a: "a \<noteq> []" "list_all is_decimal_char a"
      and b: "b \<noteq> []" "list_all is_decimal_char b"
  shows "parse_page_selection (a @ ''-'' @ b) =
         Inr (Some {int (min (decimal_value a) (decimal_value b)) ..
                    int (max (decimal_value a) (decimal_value b))})"
proof -
  let ?t = "a @ CHR ''-'' # b"
  from a b have h: "is_decimal_char (hd ?t)" and l: "is_decimal_char (last ?t)"
    by (auto simp: list_all_iff)
  then have s: "py_strip ?t = ?t"
    unfolding py_strip_def using decimal_not_space strip_with_id [of ?t py_isspace] by simp
  from a b have "CHR '','' \<notin> set ?t"
    using decimal_not_space by (auto simp: list_all_iff)
  then have sp: "py_split (CHR '','') ?t = [?t]" by (rule py_split_no_sep)
  have "parse_page_selection ?t =
         Inr (Some {int (min (decimal_value a) (decimal_value b)) ..
                    int (max (decimal_value a) (decimal_value b))})"
    using range_token [OF a b, of "{}"]
    by (simp add: parse_page_selection_def s sp or_None_def)
  then show ?thesis by simp
qed

section \<open>Where the parser returns\<close>

text \<open>On input of plain characters every \<open>int\<close> behind the \<open>isdigit\<close> guard succeeds,
  so the parser returns; a part that is no number and no range of two numbers leaves
  the set as it is.\<close>

lemma set_strip_with: "set (strip_with sp s) \<subseteq> set s"
proof -
  have "set (dropWhile sp (rev (dropWhile sp s))) \<subseteq> set (rev (dropWhile sp s))"
    by (auto dest: set_dropWhileD)
  also have "\<dots> \<subseteq> set s" by (auto dest: set_dropWhileD)
  finally show ?thesis by (simp add: strip_with_def)
qed

lemma strip_with_cong:
  assumes "\<forall>c\<in>set s. sp c = sp' c"
  shows "strip_with sp s = strip_with sp' s"
proof -
  have 1: "dropWhile sp s = dropWhile sp' s"
    using assms by (intro dropWhile_cong) auto
  have "\<forall>c\<in>set (rev (dropWhile sp' s)). sp c = sp' c"
    using assms by (auto dest: set_dropWhileD)
  then have "dropWhile sp (rev (dropWhile sp' s)) = dropWhile sp' (rev (dropWhile sp' s))"
    by (intro dropWhile_cong) auto
  with 1 show ?thesis by (simp add: strip_with_def)
qed

lemma set_py_split: "part \<in> set (py_split sep s) \<Longrightarrow> set part \<subseteq> set s"
proof (induction s arbitrary: part)
  case Nil
  then show ?case by simp
next
  case (Cons c cs)
  show ?case
  proof (cases "c = sep")
    case True
    with Cons show ?thesis by auto
  next
    case False
    show ?thesis
    proof (cases "py_split sep cs")
      case Nil
      with False Cons.prems show ?thesis by auto
    next
      case (Cons r rs)
      with False Cons.prems Cons.IH [of r] Cons.IH [of part] show ?thesis
        by auto
    qed
  qed
qed

lemma py_split1_two: "sep \<in> set s \<Longrightarrow> \<exists>a b. py_split1 sep s = [a, b] \<and> set a \<subseteq> set s \<and> set b \<subseteq> set s"
proof -
  assume "sep \<in> set s"
  then have "dropWhile (\<lambda>c. c \<noteq> sep) s \<noteq> []" by (induction s) auto
  then obtain x rest where d: "dropWhile (\<lambda>c. c \<noteq> sep) s = x # rest"
    by (cases "dropWhile (\<lambda>c. c \<noteq> sep) s") auto
  have "set (x # rest) \<subseteq> set s" unfolding d [symmetric] by (auto dest: set_dropWhileD)
  moreover have "set (takeWhile (\<lambda>c. c \<noteq> sep) s) \<subseteq> set s" by (auto dest: set_takeWhileD)
  ultimately show ?thesis by (auto simp add: py_split1_def d)
qed

lemma py_int_of_stripped:
  assumes "strip_with int_isspace s = u" "u \<noteq> []" "list_all is_decimal_char u"
  shows "py_int s = Inr (int (decimal_value u))"
proof -
  from assms have h: "is_decimal_char (hd u)" by (auto simp: list_all_iff)
  then have "hd u \<noteq> CHR ''-''" "hd u \<noteq> CHR ''+''" using decimal_not_space by blast+
  then show ?thesis
    using assms by (simp add: py_int_def parse_lit_decimal decimal_value_def)
qed

lemma plain_digits_convert:
  assumes p: "\<forall>c\<in>set a. plain_char c" and d: "py_isdigit (py_strip a)"
  shows "py_int a = Inr (int (decimal_value (py_strip a)))"
proof -
  have "\<forall>c\<in>set a. int_isspace c = py_isspace c"
    using p by (auto simp add: plain_char_def int_isspace_def py_isspace_def)
  then have s: "strip_with int_isspace a = py_strip a"
    unfolding py_strip_def by (rule strip_with_cong)
  have "\<forall>c\<in>set (py_strip a). plain_char c"
    using p set_strip_with [of py_isspace a] by (auto simp add: py_strip_def)
  with d have "list_all is_decimal_char (py_strip a)"
    by (auto simp add: py_isdigit_def list_all_iff is_digit_char_def plain_char_def)
  moreover from d have "py_strip a \<noteq> []" by (simp add: py_isdigit_def)
  ultimately show ?thesis using s by (intro py_int_of_stripped) auto
qed

lemma py_strip_idem: "py_strip (py_strip s) = py_strip s"
proof (cases "py_strip s = []")
  case True
  have "py_strip [] = []" by (simp add: py_strip_def strip_with_def)
  with True show ?thesis by simp
next
  case False
  let ?d = "dropWhile py_isspace s"
  let ?e = "dropWhile py_isspace (rev ?d)"
  have e: "py_strip s = rev ?e" by (simp add: py_strip_def strip_with_def)
  with False have ne: "?e \<noteq> []" by simp
  then have he: "\<not> py_isspace (hd ?e)" by (rule hd_dropWhile)
  from ne have dne: "?d \<noteq> []" by (metis dropWhile.simps(1) rev.simps(1))
  then have hd: "\<not> py_isspace (hd ?d)" by (rule hd_dropWhile)
  have "\<exists>xs. rev ?d = xs @ ?e" by (metis takeWhile_dropWhile_id)
  then obtain xs where "rev ?d = xs @ ?e" by blast
  then have dd: "?d = rev ?e @ rev xs" by (metis rev_append rev_rev_ident)
  from ne have rne: "rev ?e \<noteq> []" by (metis rev_is_Nil_conv)
  have "hd ?d = hd (rev ?e)" using dd rne by (metis hd_append2)
  with hd have h1: "\<not> py_isspace (hd (rev ?e))" by metis
  from he ne have h2: "\<not> py_isspace (last (rev ?e))" by (metis last_rev)
  have f: "strip_with py_isspace (rev ?e) = rev ?e" using rne h1 h2 by (rule strip_with_id)
  have es: "strip_with py_isspace s = rev ?e" by (simp only: strip_with_def)
  show ?thesis unfolding py_strip_def es by (rule f)
qed

lemma plain_part_returns:
  assumes "\<forall>c\<in>set part. plain_char c"
  shows "\<exists>pages'. process_part pages part = Inr pages'"
proof -
  let ?p = "py_strip part"
  have pp: "\<forall>c\<in>set ?p. plain_char c"
    using assms set_strip_with [of py_isspace part] by (auto simp add: py_strip_def)
  show ?thesis
  proof (cases "CHR ''-'' \<in> set ?p")
    case True
    then obtain a b where ab: "py_split1 (CHR ''-'') ?p = [a, b]"
      and sa: "set a \<subseteq> set ?p" and sb: "set b \<subseteq> set ?p"
      using py_split1_two by blast
    from pp sa sb have pa: "\<forall>c\<in>set a. plain_char c" and pb: "\<forall>c\<in>set b. plain_char c"
      by auto
    show ?thesis
      using True ab plain_digits_convert [OF pa] plain_digits_convert [OF pb]
      by (auto simp add: process_part_def Let_def)
  next
    case False
    have "py_isdigit ?p \<Longrightarrow> \<exists>n. py_int ?p = Inr n"
      using plain_digits_convert [OF pp] by (simp add: py_strip_idem)
    with False show ?thesis
      by (auto simp add: process_part_def Let_def)
  qed
qed

lemma plain_parts_return:
  "\<forall>part\<in>set parts. \<forall>c\<in>set part. plain_char c \<Longrightarrow> \<exists>pages'. parts_loop pages parts = Inr pages'"
proof (induction parts arbitrary: pages)
  case Nil
  then show ?case by simp
next
  case (Cons part parts)
  then obtain p' where "process_part pages part = Inr p'"
    using plain_part_returns [of part pages] by auto
  with Cons show ?case by simp
qed

lemma plain_input_returns:
  assumes "\<forall>c\<in>set s. plain_char c"
  shows "\<exists>r. parse_page_selection s = Inr r"
proof -
  have "\<forall>part\<in>set (py_split (CHR '','') (py_strip s)). \<forall>c\<in>set part. plain_char c"
    using assms set_py_split [of _ "CHR '',''" "py_strip s"] set_strip_with [of py_isspace s]
    unfolding py_strip_def by blast
  then obtain p' where "parts_loop {} (py_split (CHR '','') (py_strip s)) = Inr p'"
    using plain_parts_return by blast
  then show ?thesis by (simp add: parse_page_selection_def Let_def)
qed

lemma malformed_part_skipped:
  assumes "\<not> py_isdigit (py_strip part)"
    and "\<forall>a b. py_split1 (CHR ''-'') (py_strip part) = [a, b] \<longrightarrow>
           \<not> (py_isdigit (py_strip a) \<and> py_isdigit (py_strip b))"
  shows "process_part pages part = Inr pages"
proof (cases "CHR ''-'' \<in> set (py_strip part)")
  case True
  then obtain a b where ab: "py_split1 (CHR ''-'') (py_strip part) = [a, b]"
    using py_split1_two by blast
  with assms(2) have "\<not> (py_isdigit (py_strip a) \<and> py_isdigit (py_strip b))" by blast
  with True ab show ?thesis by (auto simp add: process_part_def Let_def)
next
  case False
  with assms(1) show ?thesis by (auto simp add: process_part_def Let_def)
qed

lemma all_malformed_None:
  assumes "\<forall>part\<in>set (py_split (CHR '','') (py_strip s)).
             \<not> py_isdigit (py_strip part) \<and>
             (\<forall>a b. py_split1 (CHR ''-'') (py_strip part) = [a, b] \<longrightarrow>
                \<not> (py_isdigit (py_strip a) \<and> py_isdigit (py_strip b)))"
  shows "parse_page_selection s = Inr None"
proof -
  have "\<forall>part\<in>set parts.
             \<not> py_isdigit (py_strip part) \<and>
             (\<forall>a b. py_split1 (CHR ''-'') (py_strip part) = [a, b] \<longrightarrow>
                \<not> (py_isdigit (py_strip a) \<and> py_isdigit (py_strip b)))
        \<Longrightarrow> parts_loop pages parts = Inr pages" for parts pages
    by (induction parts) (simp_all add: malformed_part_skipped)
  with assms have "parts_loop {} (py_split (CHR '','') (py_strip s)) = Inr {}" by blast
  then show ?thesis by (simp add: parse_page_selection_def Let_def or_None_def)
qed

lemma separator_in_range_raises:
  "parse_page_selection [CHR ''3'', CHR 0x1C, CHR ''-'', CHR ''5''] = Inl ValueError"
  by (simp add: parser_defs char_tables)

section \<open>The parser on given inputs\<close>

text \<open>
  C7. On the input \<open>1,3-5,8\<close> the parser returns exactly the set of the pages
  1, 3, 4, 5 and 8.
\<close>

theorem parse_1_3to5_8: "parse_page_selection ''1,3-5,8'' = Inr (Some {1, 3, 4, 5, 8})"
  by (auto simp add: parser_defs char_tables)

text \<open>
  C5. On an input that is empty or holds only whitespace the parser returns \<open>None\<close>,
  the signal for all pages.
\<close>

theorem whitespace_means_all_pages:
  "s = [] \<or> (\<forall>c\<in>set s. py_isspace c) \<Longrightarrow> parse_page_selection s = Inr None"
  by (auto simp add: parse_page_selection_def py_strip_def strip_with_all)

theorem whitespace_means_all_pages_witness:
  "list_all py_isspace [CHR '' '', CHR 0x09, CHR '' ''] \<and>
   parse_page_selection [CHR '' '', CHR 0x09, CHR '' ''] = Inr None"
proof -
  have h: "[CHR '' '', CHR 0x09, CHR '' ''] = [] \<or>
           (\<forall>c\<in>set [CHR '' '', CHR 0x09, CHR '' '']. py_isspace c)"
    by (simp add: char_tables)
  show ?thesis
    using h whitespace_means_all_pages [OF h] by (simp add: char_tables)
qed

text \<open>
  C9. Whatever the input, the parser never returns the empty set: what it returns is
  \<open>None\<close> or a set with an element, so the truth value of the result says whether it is
  a set.
\<close>

theorem result_none_or_nonempty:
  "parse_page_selection s \<noteq> Inr (Some {}) \<and>
   (\<forall>r. parse_page_selection s = Inr r \<longrightarrow>
        (r = None \<or> (\<exists>S. r = Some S \<and> S \<noteq> {})) \<and> truthy r = (r \<noteq> None))"
proof -
  have n: "parse_page_selection s \<noteq> Inr (Some {})" by (rule parse_never_empty)
  have "(r = None \<or> (\<exists>S. r = Some S \<and> S \<noteq> {})) \<and> truthy r = (r \<noteq> None)"
    if "parse_page_selection s = Inr r" for r
    using n that by (cases r) auto
  with n show ?thesis by blast
qed

theorem result_none_or_nonempty_witness:
  "parse_page_selection ''2, x'' = Inr (Some {2}) \<and> truthy (Some {2}) = (Some {2::int} \<noteq> None)"
proof -
  have e: "parse_page_selection ''2, x'' = Inr (Some {2})"
    by (simp add: parser_defs char_tables)
  show ?thesis
    using e result_none_or_nonempty [of "''2, x''"] by simp
qed

text \<open>
  C6. The parser is meant to return on every input. It does not: the superscript two
  (U+00B2) passes \<open>isdigit\<close>, and \<open>int\<close> then raises \<open>ValueError\<close>, which leaves the
  parser.
\<close>

theorem superscript_digit_raises:
  "py_isdigit [CHR 0xB2] \<and> py_int [CHR 0xB2] = Inl ValueError \<and>
   parse_page_selection [CHR 0xB2] = Inl ValueError"
  by (simp add: parser_defs char_tables)

text \<open>
  C4. A range token \<open>a-b\<close> of two strings of decimal digits with \<open>a > b\<close> adds exactly
  the pages from \<open>b\<close> to \<open>a\<close>, that is from the smaller to the larger end, to the set,
  and alone it yields that range.
\<close>

theorem reversed_range_normalized:
  assumes "a \<noteq> []" "list_all is_decimal_char a" "b \<noteq> []" "list_all is_decimal_char b"
    and "decimal_value a > decimal_value b"
  shows "process_part pages (a @ ''-'' @ b) =
           Inr (pages \<union> {int (min (decimal_value a) (decimal_value b)) ..
                         int (max (decimal_value a) (decimal_value b))}) \<and>
         parse_page_selection (a @ ''-'' @ b) =
           Inr (Some {int (decimal_value b) .. int (decimal_value a)})"
  using assms range_token [of a b pages] range_token_whole [of a b]
  by (simp add: min_def max_def)

theorem reversed_range_normalized_witness:
  "decimal_value ''5'' > decimal_value ''3'' \<and>
   process_part {9} ''5-3'' = Inr {9, 3, 4, 5} \<and>
   parse_page_selection ''5-3'' = Inr (Some {3, 4, 5})"
proof -
  have h: "''5'' \<noteq> []" "list_all is_decimal_char ''5''" "''3'' \<noteq> []"
    "list_all is_decimal_char ''3''" "decimal_value ''5'' > decimal_value ''3''"
    by (simp_all add: decimal_value_def char_tables)
  have v: "decimal_value ''5'' = 5" "decimal_value ''3'' = 3"
    by (simp_all add: decimal_value_def char_tables)
  have u: "{3..5::int} = {3, 4, 5}" by auto
  show ?thesis
    using h(5) reversed_range_normalized [OF h, of "{9}"] by (auto simp add: v u)
qed

section \<open>Filtering and aggregation\<close>

text \<open>
  C1. For a set \<open>S\<close> the parser returned and a page count \<open>N\<close>, the filtered index set
  holds exactly the \<open>p - 1\<close> for the \<open>p\<close> of \<open>S\<close> with \<open>1 \<le> p \<le> N\<close>; a selected page
  outside \<open>1..N\<close> leaves no index behind, and the filter has no failing case.
\<close>

theorem selected_idx_in_bounds:
  "parse_page_selection s = Inr (Some S) \<Longrightarrow>
   selected_idx (Some S) N = Some {p - 1 |p. p \<in> S \<and> 1 \<le> p \<and> p \<le> N} \<and>
   (\<forall>I. selected_idx (Some S) N = Some I \<longrightarrow>
      (\<forall>i. i \<in> I \<longleftrightarrow> i + 1 \<in> S \<and> 0 \<le> i \<and> i < N) \<and>
      (\<forall>p\<in>S. p < 1 \<or> N < p \<longrightarrow> p - 1 \<notin> I))"
proof -
  assume e: "parse_page_selection s = Inr (Some S)"
  then have "S \<noteq> {}" using parse_never_empty [of s] by auto
  then have i: "selected_idx (Some S) N = Some {p - 1 |p. p \<in> S \<and> 1 \<le> p \<and> p \<le> N}"
    by (rule selected_idx_Some)
  have m: "i \<in> {p - 1 |p. p \<in> S \<and> 1 \<le> p \<and> p \<le> N} \<longleftrightarrow> i + 1 \<in> S \<and> 0 \<le> i \<and> i < N" for i
  proof
    assume "i \<in> {p - 1 |p. p \<in> S \<and> 1 \<le> p \<and> p \<le> N}"
    then show "i + 1 \<in> S \<and> 0 \<le> i \<and> i < N" by auto
  next
    assume "i + 1 \<in> S \<and> 0 \<le> i \<and> i < N"
    then have "i + 1 \<in> S \<and> 1 \<le> i + 1 \<and> i + 1 \<le> N \<and> i = (i + 1) - 1" by simp
    then show "i \<in> {p - 1 |p. p \<in> S \<and> 1 \<le> p \<and> p \<le> N}" by blast
  qed
  have d: "p - 1 \<notin> {p - 1 |p. p \<in> S \<and> 1 \<le> p \<and> p \<le> N}" if "p < 1 \<or> N < p" for p
    using that by auto
  show ?thesis using i m d by simp
qed

theorem selected_idx_in_bounds_witness:
  "parse_page_selection ''2,50'' = Inr (Some {2, 50}) \<and>
   selected_idx (Some {2, 50}) 3 = Some {1}"
proof -
  have e: "parse_page_selection ''2,50'' = Inr (Some {2, 50})"
    by (auto simp add: parser_defs char_tables)
  have "{p - 1 |p. p \<in> {2, 50} \<and> 1 \<le> p \<and> p \<le> (3::int)} = {1}" by auto
  then show ?thesis
    using e selected_idx_in_bounds [OF e, of 3] by simp
qed

lemma py_splitlines_Nil: "py_splitlines [] = []"
  by (simp add: py_splitlines_def)

lemma str_nat_0: "str_nat 0 = ''0''"
  by code_simp

text \<open>
  C10. When the parser returned a set and none of its pages lies in \<open>1..N\<close>, the
  filtered index set is the empty set, not \<open>None\<close>: no page is shown, the Markdown is
  empty and the run reports 0 pages of \<open>N\<close>.
\<close>

theorem out_of_range_selection_shows_nothing:
  assumes "parse_page_selection s = Inr (Some S)"
    and "\<forall>p\<in>S. p < 1 \<or> int (length pages) < p"
  shows "selected_idx (Some S) (int (length pages)) = Some {} \<and>
         md_pages (Some {}) pages = [] \<and>
         md_text (Some {}) pages = [] \<and>
         render_result s pages =
           [StInfo (''Showing 0 page(s) out of '' @ py_str_int (int (length pages))
                    @ '' based on your selection.''),
            StSuccess, StPreview [], DownloadMarkdown [], DownloadDocx []]"
proof -
  from assms(1) have "S \<noteq> {}" using parse_never_empty [of s] by auto
  then have "selected_idx (Some S) (int (length pages)) =
             Some {p - 1 |p. p \<in> S \<and> 1 \<le> p \<and> p \<le> int (length pages)}"
    by (rule selected_idx_Some)
  moreover have "{p - 1 |p. p \<in> S \<and> 1 \<le> p \<and> p \<le> int (length pages)} = {}"
    using assms(2) by auto
  ultimately have i: "selected_idx (Some S) (int (length pages)) = Some {}" by simp
  have m: "md_pages (Some {}) pages = []"
    by (simp add: md_pages_eq page_selected_def)
  have t: "md_text (Some {}) pages = []"
    by (simp add: md_text_def m)
  have r: "render_result s pages =
           [StInfo (''Showing 0 page(s) out of '' @ py_str_int (int (length pages))
                    @ '' based on your selection.''),
            StSuccess, StPreview [], DownloadMarkdown [], DownloadDocx []]"
    by (simp add: render_result_def assms(1) i m info_msg_def py_str_int_def str_nat_0
        export_docx_def py_splitlines_Nil)
  from i m t r show ?thesis by simp
qed

theorem out_of_range_selection_shows_nothing_witness:
  "parse_page_selection ''50'' = Inr (Some {50}) \<and>
   selected_idx (Some {50}) 3 = Some {} \<and>
   render_result ''50''
     [\<lparr>index = 0, markdown = ''a''\<rparr>, \<lparr>index = 1, markdown = ''b''\<rparr>, \<lparr>index = 2, markdown = ''c''\<rparr>] =
     [StInfo ''Showing 0 page(s) out of 3 based on your selection.'',
      StSuccess, StPreview [], DownloadMarkdown [], DownloadDocx []]"
proof -
  let ?pages = "[\<lparr>index = 0, markdown = ''a''\<rparr>, \<lparr>index = 1, markdown = ''b''\<rparr>,
                 \<lparr>index = 2, markdown = ''c''\<rparr>]"
  have e: "parse_page_selection ''50'' = Inr (Some {50})"
    by (simp add: parser_defs char_tables)
  have h: "\<forall>p\<in>{50::int}. p < 1 \<or> int (length ?pages) < p" by simp
  have n: "py_str_int 3 = ''3''"
    by code_simp
  show ?thesis
    using e out_of_range_selection_shows_nothing [OF e h] by (simp add: n)
qed

lemma py_join_Cons:
  "\<exists>C. py_join sep (x # xs) = x @ C \<and> (C = [] \<or> (\<exists>C'. C = sep @ C'))"
  by (cases xs) auto

lemma py_join_append:
  "xs \<noteq> [] \<Longrightarrow> ys \<noteq> [] \<Longrightarrow> py_join sep (xs @ ys) = py_join sep xs @ sep @ py_join sep ys"
proof (induction sep xs rule: py_join.induct)
  case (1 sep)
  then show ?case by simp
next
  case (2 sep x)
  then show ?case by (cases ys) auto
next
  case (3 sep x y ys')
  then show ?case by simp
qed

lemma py_join_closed:
  "es \<noteq> [] \<Longrightarrow> py_join sep es = concat (map (\<lambda>e. e @ sep) (butlast es)) @ last es"
  by (induction sep es rule: py_join.induct) simp_all

lemma py_join_elem:
  assumes "i < length es"
  shows "\<exists>A C. py_join sep es = A @ es ! i @ C \<and> (C = [] \<or> (\<exists>C'. C = sep @ C'))"
proof -
  have e: "es = take i es @ es ! i # drop (Suc i) es"
    using assms by (rule id_take_nth_drop)
  obtain C where c: "py_join sep (es ! i # drop (Suc i) es) = es ! i @ C"
    and c': "C = [] \<or> (\<exists>C'. C = sep @ C')"
    using py_join_Cons by blast
  show ?thesis
  proof (cases "take i es = []")
    case True
    with e c have "py_join sep es = [] @ es ! i @ C" by simp
    with c' show ?thesis by blast
  next
    case False
    then have "py_join sep (take i es @ es ! i # drop (Suc i) es) =
               py_join sep (take i es) @ sep @ py_join sep (es ! i # drop (Suc i) es)"
      by (simp add: py_join_append)
    with e c have "py_join sep es = (py_join sep (take i es) @ sep) @ es ! i @ C" by simp
    with c' show ?thesis by blast
  qed
qed

lemma py_join_in_order:
  assumes "i < j" "j < length es"
  shows "\<exists>A B C. py_join sep es = A @ es ! i @ sep @ B @ es ! j @ C"
proof -
  have e: "es = take j es @ es ! j # drop (Suc j) es"
    using assms(2) by (rule id_take_nth_drop)
  obtain C where c: "py_join sep (es ! j # drop (Suc j) es) = es ! j @ C"
    using py_join_Cons by blast
  have ne: "take j es \<noteq> []" using assms by auto
  have "i < length (take j es)" using assms by simp
  then obtain A B where ab: "py_join sep (take j es) = A @ take j es ! i @ B"
    and b': "B = [] \<or> (\<exists>B'. B = sep @ B')"
    using py_join_elem by blast
  have ti: "take j es ! i = es ! i" using assms by simp
  from ne have "py_join sep (take j es @ es ! j # drop (Suc j) es) =
             py_join sep (take j es) @ sep @ py_join sep (es ! j # drop (Suc j) es)"
    by (simp add: py_join_append)
  with e have "py_join sep es = py_join sep (take j es) @ sep @ py_join sep (es ! j # drop (Suc j) es)"
    by simp
  then have t: "py_join sep es = A @ es ! i @ B @ sep @ es ! j @ C"
    by (simp add: ab c ti)
  from b' show ?thesis
  proof
    assume "B = []"
    with t have "py_join sep es = A @ es ! i @ sep @ [] @ es ! j @ C" by simp
    then show ?thesis by blast
  next
    assume "\<exists>B'. B = sep @ B'"
    then obtain B' where "B = sep @ B'" by blast
    with t have "py_join sep es = A @ es ! i @ sep @ (B' @ sep) @ es ! j @ C" by simp
    then show ?thesis by blast
  qed
qed

lemma str_nat_no_leading_zero: "n \<noteq> 0 \<Longrightarrow> hd (str_nat n) \<noteq> CHR ''0''"
proof (induction n rule: str_nat.induct)
  case (1 n)
  show ?case
  proof (cases "n < 10")
    case True
    have "cp (digit_char n) = 48 + n" using True by (rule cp_digit_char)
    moreover have "cp (CHR ''0'') = 48" by (simp add: cp_def)
    ultimately have "digit_char n \<noteq> CHR ''0''" using "1.prems" by auto
    then show ?thesis using True by (subst str_nat.simps) simp
  next
    case False
    then have "n div 10 \<noteq> 0" by simp
    with 1 False have "hd (str_nat (n div 10)) \<noteq> CHR ''0''" by simp
    moreover have "str_nat (n div 10) \<noteq> []" using str_nat_decimal by simp
    ultimately show ?thesis using False by (subst str_nat.simps) simp
  qed
qed

lemma str_nat_numeral: "unsigned_numeral (str_nat n) n"
proof (cases "n = 0")
  case True
  then show ?thesis
    using str_nat_decimal [of 0] str_nat_value [of 0] by (simp add: unsigned_numeral_def str_nat_0)
next
  case False
  then show ?thesis
    using str_nat_decimal [of n] str_nat_value [of n] str_nat_no_leading_zero [of n]
    by (simp add: unsigned_numeral_def)
qed

lemma py_str_int_numeral: "decimal_numeral (py_str_int i) i"
  using str_nat_numeral by (simp add: decimal_numeral_def py_str_int_def)

text \<open>
  C2. The aggregated Markdown holds the entries of the selected pages in the order of
  the response, a blank line between one entry and the next and nothing else: of two
  selected pages the earlier one's entry stands before the later one's. Each entry is
  the heading \<open>## Page N\<close>, with \<open>N\<close> the decimal numeral of the page's index plus
  one, a blank line, and the page's Markdown.
\<close>

theorem aggregation_preserves_order:
  "md_pages sel pages = map page_entry (filter (page_selected sel) pages) \<and>
   md_text sel pages =
     (if filter (page_selected sel) pages = [] then []
      else concat (map (\<lambda>page. page_entry page @ [CHR 0x0A, CHR 0x0A])
                    (butlast (filter (page_selected sel) pages))) @
           page_entry (last (filter (page_selected sel) pages))) \<and>
   (\<forall>page. page_entry page =
              ''## Page '' @ py_str_int (index page + 1) @ [CHR 0x0A, CHR 0x0A] @ markdown page \<and>
            decimal_numeral (py_str_int (index page + 1)) (index page + 1) \<and>
            (0 \<le> index page \<longrightarrow> py_int (py_str_int (index page + 1)) = Inr (index page + 1))) \<and>
   (\<forall>J K. J < K \<and> K < length pages \<and>
          page_selected sel (pages ! J) \<and> page_selected sel (pages ! K) \<longrightarrow>
      out_pos sel pages J < out_pos sel pages K \<and>
      out_pos sel pages K < length (md_pages sel pages) \<and>
      md_pages sel pages ! out_pos sel pages J = page_entry (pages ! J) \<and>
      md_pages sel pages ! out_pos sel pages K = page_entry (pages ! K) \<and>
      occurs_in_order (page_entry (pages ! J)) (page_entry (pages ! K)) (md_text sel pages))"
proof -
  let ?sel = "filter (page_selected sel) pages"
  have 1: "md_pages sel pages = map page_entry ?sel"
    by (rule md_pages_eq)
  have 2: "md_text sel pages =
     (if ?sel = [] then []
      else concat (map (\<lambda>page. page_entry page @ [CHR 0x0A, CHR 0x0A]) (butlast ?sel)) @
           page_entry (last ?sel))"
  proof (cases "?sel = []")
    case True
    then show ?thesis by (simp add: md_text_def 1)
  next
    case False
    then have "map page_entry ?sel \<noteq> []" by simp
    then have "py_join [newline, newline] (map page_entry ?sel) =
          concat (map (\<lambda>e. e @ [newline, newline]) (butlast (map page_entry ?sel))) @
          last (map page_entry ?sel)"
      by (rule py_join_closed)
    with False show ?thesis
      by (simp add: md_text_def 1 newline_def map_butlast [symmetric] last_map comp_def)
  qed
  have 3: "page_entry page =
             ''## Page '' @ py_str_int (index page + 1) @ [CHR 0x0A, CHR 0x0A] @ markdown page \<and>
           decimal_numeral (py_str_int (index page + 1)) (index page + 1) \<and>
           (0 \<le> index page \<longrightarrow> py_int (py_str_int (index page + 1)) = Inr (index page + 1))"
    for page
    using heading_number_reads_back [of "index page + 1"] py_str_int_numeral [of "index page + 1"]
    by (simp add: page_entry_def newline_def)
  have 4: "out_pos sel pages J < out_pos sel pages K \<and>
      out_pos sel pages K < length (md_pages sel pages) \<and>
      md_pages sel pages ! out_pos sel pages J = page_entry (pages ! J) \<and>
      md_pages sel pages ! out_pos sel pages K = page_entry (pages ! K) \<and>
      occurs_in_order (page_entry (pages ! J)) (page_entry (pages ! K)) (md_text sel pages)"
    if h: "J < K \<and> K < length pages \<and>
          page_selected sel (pages ! J) \<and> page_selected sel (pages ! K)" for J K
  proof -
    from h have o: "out_pos sel pages J < out_pos sel pages K \<and>
         out_pos sel pages K < length (md_pages sel pages) \<and>
         md_pages sel pages ! out_pos sel pages J = page_entry (pages ! J) \<and>
         md_pages sel pages ! out_pos sel pages K = page_entry (pages ! K)"
      using md_pages_order [of J K pages sel] by simp
    then have "\<exists>A B C. py_join [newline, newline] (md_pages sel pages) =
                 A @ md_pages sel pages ! out_pos sel pages J @ [newline, newline] @ B @
                 md_pages sel pages ! out_pos sel pages K @ C"
      using py_join_in_order by blast
    with o have "occurs_in_order (page_entry (pages ! J)) (page_entry (pages ! K))
                   (md_text sel pages)"
      by (simp add: occurs_in_order_def md_text_def newline_def)
    with o show ?thesis by simp
  qed
  from 1 2 3 4 show ?thesis by blast
qed

theorem aggregation_preserves_order_witness:
  "(0::nat) < 2 \<and>
   2 < length [\<lparr>index = 0, markdown = ''a''\<rparr>, \<lparr>index = 1, markdown = ''b''\<rparr>,
               \<lparr>index = 2, markdown = ''c''\<rparr>] \<and>
   page_selected (Some {0, 2}) \<lparr>index = 0, markdown = ''a''\<rparr> \<and>
   page_selected (Some {0, 2}) \<lparr>index = 2, markdown = ''c''\<rparr> \<and>
   md_pages (Some {0, 2}) [\<lparr>index = 0, markdown = ''a''\<rparr>, \<lparr>index = 1, markdown = ''b''\<rparr>,
               \<lparr>index = 2, markdown = ''c''\<rparr>] =
     [''## Page 1\<newline>\<newline>a'', ''## Page 3\<newline>\<newline>c''] \<and>
   md_text (Some {0, 2}) [\<lparr>index = 0, markdown = ''a''\<rparr>, \<lparr>index = 1, markdown = ''b''\<rparr>,
               \<lparr>index = 2, markdown = ''c''\<rparr>] =
     ''## Page 1\<newline>\<newline>a\<newline>\<newline>## Page 3\<newline>\<newline>c'' \<and>
   occurs_in_order ''## Page 1\<newline>\<newline>a'' ''## Page 3\<newline>\<newline>c''
     (md_text (Some {0, 2}) [\<lparr>index = 0, markdown = ''a''\<rparr>, \<lparr>index = 1, markdown = ''b''\<rparr>,
               \<lparr>index = 2, markdown = ''c''\<rparr>])"
proof -
  let ?pages = "[\<lparr>index = 0, markdown = ''a''\<rparr>, \<lparr>index = 1, markdown = ''b''\<rparr>,
               \<lparr>index = 2, markdown = ''c''\<rparr>]"
  have h: "(0::nat) < 2 \<and> 2 < length ?pages \<and>
          page_selected (Some {0, 2}) (?pages ! 0) \<and> page_selected (Some {0, 2}) (?pages ! 2)"
    by (simp add: page_selected_def)
  have f: "filter (page_selected (Some {0, 2})) ?pages =
           [\<lparr>index = 0, markdown = ''a''\<rparr>, \<lparr>index = 2, markdown = ''c''\<rparr>]"
    by (simp add: page_selected_def)
  have n: "py_str_int 1 = ''1''" "py_str_int 3 = ''3''" by code_simp+
  from aggregation_preserves_order [of "Some {0, 2}" ?pages]
  have a: "md_pages (Some {0, 2}) ?pages = map page_entry (filter (page_selected (Some {0, 2})) ?pages)"
    and t: "md_text (Some {0, 2}) ?pages =
     (if filter (page_selected (Some {0, 2})) ?pages = [] then []
      else concat (map (\<lambda>page. page_entry page @ [CHR 0x0A, CHR 0x0A])
                    (butlast (filter (page_selected (Some {0, 2})) ?pages))) @
           page_entry (last (filter (page_selected (Some {0, 2})) ?pages)))"
    and e: "\<forall>page. page_entry page =
              ''## Page '' @ py_str_int (index page + 1) @ [CHR 0x0A, CHR 0x0A] @ markdown page"
    and b: "\<forall>J K. J < K \<and> K < length ?pages \<and>
          page_selected (Some {0, 2}) (?pages ! J) \<and> page_selected (Some {0, 2}) (?pages ! K) \<longrightarrow>
      occurs_in_order (page_entry (?pages ! J)) (page_entry (?pages ! K)) (md_text (Some {0, 2}) ?pages)"
    by blast+
  from e have e0: "page_entry \<lparr>index = 0, markdown = ''a''\<rparr> = ''## Page 1\<newline>\<newline>a''"
    and e2: "page_entry \<lparr>index = 2, markdown = ''c''\<rparr> = ''## Page 3\<newline>\<newline>c''"
    by (simp_all add: n)
  from b h have "occurs_in_order (page_entry (?pages ! 0)) (page_entry (?pages ! 2)) (md_text (Some {0, 2}) ?pages)"
    by blast
  then have o: "occurs_in_order ''## Page 1\<newline>\<newline>a'' ''## Page 3\<newline>\<newline>c''
     (md_text (Some {0, 2}) ?pages)"
    by (simp add: e0 e2)
  have m: "md_pages (Some {0, 2}) ?pages = [''## Page 1\<newline>\<newline>a'', ''## Page 3\<newline>\<newline>c'']"
    unfolding a f by (simp add: e0 e2)
  have x: "md_text (Some {0, 2}) ?pages = ''## Page 1\<newline>\<newline>a\<newline>\<newline>## Page 3\<newline>\<newline>c''"
    unfolding t f by (simp add: e0 e2)
  from h o m x show ?thesis by (simp add: page_selected_def)
qed

section \<open>The export, line by line\<close>




section \<open>The key check\<close>

text \<open>
  C8, as the programs have it. With an empty key the app, once a file is uploaded and
  the conversion asked for, shows the missing-key message and does nothing else: no
  file read, no encoding, no call of the service. The script, when the variable is
  unset or empty, has read and encoded the file already; it then raises its own
  missing-key error and does not call the service.
\<close>

theorem missing_key_reported:
  "(convert_btn inp \<and> uploaded_file inp = Some f \<and>
      resolve_key (api_key inp) (env_key inp) = [] \<longrightarrow>
        app_run r inp = [StError missing_key_msg]) \<and>
   (v = None \<or> v = Some [] \<longrightarrow>
        docconv_run r (Some f) v = [FileRead, Base64Encode, Raised (RuntimeError not_set_msg)]) \<and>
   missing_key_msg \<noteq> upload_msg"
  by (auto simp add: app_run_def docconv_run_def missing_key_msg_def upload_msg_def)

theorem missing_key_reported_witness:
  "resolve_key [] (Some []) = [] \<and>
   app_run no_pages_remote
     \<lparr>convert_btn = True, uploaded_file = Some ''%PDF'', api_key = [], env_key = Some [],
      keep_images = False, pages_input = []\<rparr> = [StError missing_key_msg] \<and>
   docconv_run no_pages_remote (Some ''%PDF'') (Some []) =
     [FileRead, Base64Encode, Raised (RuntimeError not_set_msg)]"
proof -
  let ?inp = "\<lparr>convert_btn = True, uploaded_file = Some ''%PDF'', api_key = [], env_key = Some [],
      keep_images = False, pages_input = []\<rparr>"
  have h: "convert_btn ?inp \<and> uploaded_file ?inp = Some ''%PDF'' \<and>
      resolve_key (api_key ?inp) (env_key ?inp) = []"
    by (simp add: resolve_key_def getenv_default_def)
  have k: "(Some [] :: string option) = None \<or> (Some [] :: string option) = Some []" by simp
  show ?thesis
    using h k missing_key_reported [of ?inp "''%PDF''" no_pages_remote "Some []"]
    by (simp add: resolve_key_def getenv_default_def)
qed

text \<open>The script at work with no key set: the file is read and encoded before the
  key is missed.\<close>

theorem script_reads_before_key_check:
  "FileRead \<in> set (docconv_run no_pages_remote (Some ''%PDF'') None) \<and>
   docconv_run no_pages_remote (Some ''%PDF'') None =
     [FileRead, Base64Encode, Raised (RuntimeError not_set_msg)]"
  by (simp add: docconv_run_def)

end
